theory Spec2Isabelle
  imports Main "HOL-Library.Char_ord" "HOL-Library.List_Lexorder" "HOL-Library.Multiset"
begin

section \<open>Python values used by the complexes\<close>

text \<open>
  Node identifiers are Python integers. The source compares nodes through \<open>str\<close>, so the
  decimal rendering of an integer is written out; strings compare by code point, a proper
  prefix being smaller, which is the lexicographic order on \<open>char list\<close>.
\<close>

type_synonym node = int
type_synonym path = "node list"

datatype pyval = PyInt int | PyStr string

type_synonym attrs = "string \<rightharpoonup> pyval"

datatype error = ValueError | KeyError | IndexError | AssertionError | TypeError | UnboundLocalError

definition digit_char :: "nat \<Rightarrow> char" where
  "digit_char d = ''0123456789'' ! (d mod 10)"

fun str_nat :: "nat \<Rightarrow> string" where
  "str_nat n = (if n < 10 then [digit_char n] else str_nat (n div 10) @ [digit_char (n mod 10)])"

declare str_nat.simps [simp del]

definition str :: "int \<Rightarrow> string" where
  "str i = (if i < 0 then CHR ''-'' # str_nat (nat (- i)) else str_nat (nat i))"

text \<open>Python list indexing: a negative index counts from the end, anything else out of
  range raises IndexError (here: no index).\<close>

definition py_index :: "'a list \<Rightarrow> int \<Rightarrow> nat option" where
  "py_index xs i =
     (let n = int (length xs); j = (if i < 0 then n + i else i)
      in if 0 \<le> j \<and> j < n then Some (nat j) else None)"

section \<open>PathComplex\<close>

text \<open>
  A rank bucket is a Python dict from a path (a tuple of nodes) to its attribute dict;
  dicts keep insertion order, so a bucket is an association list. The allowed-path set is
  a Python set.
\<close>

type_synonym bucket = "(path \<times> attrs) list"

record path_complex =
  faces_dict :: "bucket list"
  max_dim :: int
  allowed_paths :: "path set"
  reserve_sequence_order :: bool

definition bucket_keys :: "bucket \<Rightarrow> path list" where
  "bucket_keys b = map fst b"

definition bucket_update :: "bucket \<Rightarrow> path \<Rightarrow> attrs \<Rightarrow> bucket" where
  "bucket_update b p attr = map (\<lambda>(k, v). if k = p then (k, v ++ attr) else (k, v)) b"

definition update_faces_dict_length :: "path_complex \<Rightarrow> path \<Rightarrow> path_complex" where
  "update_faces_dict_length pc path =
     (if length path > length (faces_dict pc)
      then pc\<lparr>faces_dict := faces_dict pc @ replicate (length path - length (faces_dict pc)) []\<rparr>
      else pc)"

definition update_faces_dict_entry ::
    "path_complex \<Rightarrow> path \<Rightarrow> (error + path option) \<times> path_complex" where
  "update_faces_dict_entry pc path =
     (case py_index (faces_dict pc) (int (length path) - 1) of
        None \<Rightarrow> (Inl IndexError, pc)
      | Some dim \<Rightarrow>
          if path \<notin> set (bucket_keys (faces_dict pc ! dim))
          then (Inr (Some path),
                pc\<lparr>faces_dict := (faces_dict pc)[dim := faces_dict pc ! dim @ [(path, Map.empty)]]\<rparr>)
          else (Inr None, pc))"

text \<open>The reversal rule written inline in \<open>add_path\<close>, \<open>incidence_matrix\<close> and
  \<open>compute_allowed_paths\<close>: outside reserve-order mode a sequence whose first node
  string-compares greater than its last is reversed. Indexing an empty tuple raises.\<close>

definition orient :: "bool \<Rightarrow> path \<Rightarrow> error + path" where
  "orient reserve sub_path =
     (if reserve then Inr sub_path
      else if sub_path = [] then Inl IndexError
      else if str (hd sub_path) > str (last sub_path) then Inr (rev sub_path)
      else Inr sub_path)"

text \<open>The slices \<open>path_[i : i + length]\<close> in the order the two nested loops of
  \<open>add_path\<close> visit them: lengths from \<open>len(path_)\<close> down to 1, offsets upwards.\<close>

definition sub_sequences :: "path \<Rightarrow> path list" where
  "sub_sequences path =
     concat (map (\<lambda>len. map (\<lambda>i. take len (drop i path)) [0..<length path - len + 1])
                 (rev [1..<length path + 1]))"

fun add_sub_paths ::
    "path_complex \<Rightarrow> path set \<Rightarrow> path list \<Rightarrow> (error + path set) \<times> path_complex" where
  "add_sub_paths pc new_paths [] = (Inr new_paths, pc)"
| "add_sub_paths pc new_paths (sp # sps) =
     (case orient (reserve_sequence_order pc) sp of
        Inl e \<Rightarrow> (Inl e, pc)
      | Inr sub_path \<Rightarrow>
          (case update_faces_dict_entry pc sub_path of
             (Inl e, pc') \<Rightarrow> (Inl e, pc')
           | (Inr None, pc') \<Rightarrow> add_sub_paths pc' new_paths sps
           | (Inr (Some new_path), pc') \<Rightarrow> add_sub_paths pc' (insert new_path new_paths) sps))"

text \<open>\<open>faces_dict[len(path_) - 1][path_].update(attr)\<close>.\<close>

definition update_attrs ::
    "path_complex \<Rightarrow> path \<Rightarrow> attrs \<Rightarrow> (error + unit) \<times> path_complex" where
  "update_attrs pc path attr =
     (case py_index (faces_dict pc) (int (length path) - 1) of
        None \<Rightarrow> (Inl IndexError, pc)
      | Some r \<Rightarrow>
          if path \<in> set (bucket_keys (faces_dict pc ! r))
          then (Inr (), pc\<lparr>faces_dict := (faces_dict pc)[r := bucket_update (faces_dict pc ! r) path attr]\<rparr>)
          else (Inl KeyError, pc))"

text \<open>\<open>PathComplex.add_path\<close> for a list or tuple of nodes (an int or str argument is
  first wrapped in a one-element list). The result pairs the outcome with the complex as
  the call leaves it, also when it raises.\<close>

definition add_path :: "path_complex \<Rightarrow> path \<Rightarrow> attrs \<Rightarrow> (error + unit) \<times> path_complex" where
  "add_path pc path attr =
     (if length path \<noteq> card (set path) then (Inl ValueError, pc)
      else if length path > 1 \<and> str (hd path) > str (last path) \<and> \<not> reserve_sequence_order pc
      then (Inl ValueError, pc)
      else
        let pc1 = update_faces_dict_length pc path;
            pc2 = (if max_dim pc1 < int (length path) - 1
                   then pc1\<lparr>max_dim := int (length path) - 1\<rparr> else pc1)
        in case py_index (faces_dict pc2) (int (length path) - 1) of
             None \<Rightarrow> (Inl IndexError, pc2)
           | Some r \<Rightarrow>
               if path \<in> set (bucket_keys (faces_dict pc2 ! r))
               then update_attrs pc2 path attr
               else
                 (case add_sub_paths pc2 {} (sub_sequences path) of
                    (Inl e, pc3) \<Rightarrow> (Inl e, pc3)
                  | (Inr new_paths, pc3) \<Rightarrow>
                      update_attrs
                        (if new_paths \<noteq> {}
                         then pc3\<lparr>allowed_paths := allowed_paths pc3 \<union> new_paths\<rparr> else pc3)
                        path attr))"

text \<open>Modelled from the spec: the lattice class \<open>PathView\<close> is not among the sources; a
  freshly created lattice has no rank bucket and a \<open>max_dim\<close> below every rank. The
  constructor stores the allowed-path set and the order flag before any insertion.\<close>

definition empty_complex :: "path set \<Rightarrow> bool \<Rightarrow> path_complex" where
  "empty_complex allowed reserve =
     \<lparr>faces_dict = [], max_dim = - 1, allowed_paths = allowed, reserve_sequence_order = reserve\<rparr>"

definition canon :: "bool \<Rightarrow> path \<Rightarrow> path" where
  "canon reserve s = (if \<not> reserve \<and> str (last s) < str (hd s) then rev s else s)"

definition ins_key :: "bucket list \<Rightarrow> path \<Rightarrow> bucket list" where
  "ins_key fd p =
     (if p \<in> set (bucket_keys (fd ! (length p - 1))) then fd
      else fd[length p - 1 := fd ! (length p - 1) @ [(p, Map.empty)]])"

definition fd_keys :: "bucket list \<Rightarrow> nat \<Rightarrow> path set" where
  "fd_keys fd r = (if r < length fd then set (bucket_keys (fd ! r)) else {})"

definition grow :: "bucket list \<Rightarrow> nat \<Rightarrow> bucket list" where
  "grow fd n = fd @ replicate (n - length fd) []"

definition ins_all :: "bool \<Rightarrow> bucket list \<Rightarrow> path \<Rightarrow> bucket list" where
  "ins_all reserve fd p =
     (if p \<in> fd_keys (grow fd (length p)) (length p - 1) then grow fd (length p)
      else fold (\<lambda>q fd. ins_key fd q) (map (canon reserve) (sub_sequences p)) (grow fd (length p)))"

definition valid_path :: "bool \<Rightarrow> path \<Rightarrow> bool" where
  "valid_path reserve p \<longleftrightarrow> p \<noteq> [] \<and> distinct p \<and> (reserve \<or> \<not> str (last p) < str (hd p))"

definition pc_inv :: "path_complex \<Rightarrow> bool" where
  "pc_inv pc \<longleftrightarrow>
     (\<forall>r p. p \<in> fd_keys (faces_dict pc) r \<longrightarrow>
        length p = r + 1 \<and> valid_path (reserve_sequence_order pc) p \<and> p \<in> allowed_paths pc) \<and>
     (\<forall>b \<in> set (faces_dict pc). distinct (bucket_keys b)) \<and>
     - 1 \<le> max_dim pc \<and> max_dim pc < int (length (faces_dict pc)) \<and>
     (\<forall>r. fd_keys (faces_dict pc) r \<noteq> {} \<longrightarrow> int r \<le> max_dim pc)"

definition pc_closed :: "path_complex \<Rightarrow> bool" where
  "pc_closed pc \<longleftrightarrow>
     (\<forall>r p s. p \<in> fd_keys (faces_dict pc) r \<and> s \<in> set (sub_sequences p) \<longrightarrow>
        canon (reserve_sequence_order pc) s \<in> fd_keys (faces_dict pc) (length s - 1))"

definition fd_distinct :: "bucket list \<Rightarrow> bool" where
  "fd_distinct fd \<longleftrightarrow> (\<forall>b \<in> set fd. distinct (bucket_keys b))"

definition remove_path :: "path_complex \<Rightarrow> path \<Rightarrow> (error + unit) \<times> path_complex" where
  "remove_path pc path =
     (case py_index (faces_dict pc) (int (length path) - 1) of
        None \<Rightarrow> (Inl IndexError, pc)
      | Some r \<Rightarrow>
          if path \<notin> set (bucket_keys (faces_dict pc ! r)) then (Inl KeyError, pc)
          else
            let pc1 = pc\<lparr>faces_dict := (faces_dict pc)[r := filter (\<lambda>(k, v). k \<noteq> path) (faces_dict pc ! r)]\<rparr>
            in if path \<notin> allowed_paths pc1 then (Inl KeyError, pc1)
               else
                 let pc2 = pc1\<lparr>allowed_paths := allowed_paths pc1 - {path}\<rparr>
                 in if length (faces_dict pc2 ! r) = 0 \<and> max_dim pc2 = int (length path) - 1
                    then (Inr (), pc2\<lparr>max_dim := max_dim pc2 - 1\<rparr>)
                    else (Inr (), pc2))"

fun remove_paths :: "path_complex \<Rightarrow> path list \<Rightarrow> (error + unit) \<times> path_complex" where
  "remove_paths pc [] = (Inr (), pc)"
| "remove_paths pc (path # paths) =
     (case remove_path pc path of
        (Inl e, pc') \<Rightarrow> (Inl e, pc')
      | (Inr u, pc') \<Rightarrow> remove_paths pc' paths)"

definition iter_paths :: "path_complex \<Rightarrow> path list" where
  "iter_paths pc = concat (map bucket_keys (faces_dict pc))"

definition removed_paths :: "path_complex \<Rightarrow> node list \<Rightarrow> path set" where
  "removed_paths pc node_set = {path \<in> set (iter_paths pc). \<exists>node \<in> set node_set. node \<in> set path}"

inductive remove_nodes :: "path_complex \<Rightarrow> node list \<Rightarrow> (error + unit) \<times> path_complex \<Rightarrow> bool" where
  "set paths = removed_paths pc node_set \<Longrightarrow> distinct paths \<Longrightarrow>
   remove_nodes pc node_set (remove_paths pc paths)"

inductive reachable :: "path_complex \<Rightarrow> bool" where
  init: "reachable (empty_complex allowed reserve)"
| add: "reachable pc \<Longrightarrow> reachable (snd (add_path pc path attr))"
| remove: "reachable pc \<Longrightarrow> remove_nodes pc node_set res \<Longrightarrow> reachable (snd res)"

definition edge_complex :: path_complex where
  "edge_complex = snd (add_path (empty_complex {} False) [0, 1] Map.empty)"

section \<open>Sparse matrices\<close>










section \<open>PathComplex: skeleton and incidence matrix\<close>

definition skeleton :: "path_complex \<Rightarrow> int \<Rightarrow> error + path list" where
  "skeleton pc rank =
     (if rank < int (length (faces_dict pc)) \<and> rank \<ge> 0
      then Inr (sort_key (\<lambda>x. map str x) (bucket_keys (faces_dict pc ! nat rank)))
      else if rank < 0 then Inl ValueError
      else Inl ValueError)"






section \<open>Construction from a graph\<close>

text \<open>
  A networkx graph as the constructor reads it: the nodes with their data in insertion
  order, and every undirected edge once, with its data.
\<close>

record graph =
  g_nodes :: "(node \<times> attrs) list"
  g_edges :: "(node \<times> node \<times> attrs) list"

definition neighbors :: "graph \<Rightarrow> node \<Rightarrow> node list" where
  "neighbors g u =
     concat (map (\<lambda>(a, b, d). (if a = u then [b] else []) @ (if b = u \<and> a \<noteq> u then [a] else []))
                 (g_edges g))"

text \<open>\<open>networkx.all_simple_paths(G, source, target, cutoff)\<close>: every path without a
  repeated node from source to target with at most \<open>cutoff\<close> edges, found depth first;
  \<open>visited\<close> holds the nodes walked so far, the current one first.\<close>

fun simple_paths :: "graph \<Rightarrow> node \<Rightarrow> node list \<Rightarrow> nat \<Rightarrow> node \<Rightarrow> path list" where
  "simple_paths g target visited 0 u = []"
| "simple_paths g target visited (Suc fuel) u =
     concat (map (\<lambda>v. if v \<in> set visited then []
                       else if v = target then [rev (v # visited)]
                       else simple_paths g target (v # visited) fuel v)
                 (neighbors g u))"

definition all_simple_paths :: "graph \<Rightarrow> node \<Rightarrow> node \<Rightarrow> int \<Rightarrow> path list" where
  "all_simple_paths g source target cutoff =
     (if cutoff < 1 then [] else simple_paths g target [source] (nat cutoff) source)"

text \<open>The reversal written in \<open>compute_allowed_paths\<close>; the sequences it meets are edges
  and simple paths between two different nodes, never empty.\<close>

definition flip :: "bool \<Rightarrow> path \<Rightarrow> path" where
  "flip reserve p = (if \<not> reserve \<and> str (hd p) > str (last p) then rev p else p)"

definition allowed_paths_list :: "graph \<Rightarrow> bool \<Rightarrow> int \<Rightarrow> path list" where
  "allowed_paths_list g reserve max_rank =
     (let all_nodes_list = map (\<lambda>node. [node]) (sort_key str (map fst (g_nodes g)));
          all_edges_list = map (\<lambda>(u, v, d). flip reserve [u, v]) (g_edges g);
          node_ls = map fst (g_nodes g);
          found = concat (map (\<lambda>src_idx.
                    concat (map (\<lambda>tgt_idx.
                      map (flip reserve)
                          (all_simple_paths g (node_ls ! src_idx) (node_ls ! tgt_idx) max_rank))
                      [src_idx + 1..<length node_ls]))
                    [0..<length node_ls])
      in all_nodes_list @ all_edges_list @ found)"

definition compute_allowed_paths :: "graph \<Rightarrow> bool \<Rightarrow> int \<Rightarrow> path set" where
  "compute_allowed_paths g reserve max_rank = set (allowed_paths_list g reserve max_rank)"

fun add_paths ::
    "path_complex \<Rightarrow> (path \<times> attrs) list \<Rightarrow> (error + unit) \<times> path_complex" where
  "add_paths pc [] = (Inr (), pc)"
| "add_paths pc ((path, attr) # rest) =
     (case add_path pc path attr of
        (Inl e, pc') \<Rightarrow> (Inl e, pc')
      | (Inr u, pc') \<Rightarrow> add_paths pc' rest)"

text \<open>\<open>PathComplex.__init__\<close> for a graph argument. The last loop,
  \<open>add_paths_from(self._allowed_paths)\<close>, walks a Python set: any order \<open>order\<close> of its
  elements can occur, so construction is a relation between the arguments and the
  outcome.\<close>

inductive init_graph :: "graph \<Rightarrow> bool \<Rightarrow> int \<Rightarrow> (error + unit) \<times> path_complex \<Rightarrow> bool" where
  "set order = compute_allowed_paths g reserve max_rank \<Longrightarrow> distinct order \<Longrightarrow>
   init_graph g reserve max_rank
     (add_paths (empty_complex (compute_allowed_paths g reserve max_rank) reserve)
        (map (\<lambda>(node, data). ([node], data)) (g_nodes g) @
         map (\<lambda>(u, v, data). (if str u > str v \<and> \<not> reserve then [v, u] else [u, v], data)) (g_edges g) @
         map (\<lambda>p. (p, Map.empty)) order))"

definition graph_012 :: graph where
  "graph_012 = \<lparr>g_nodes = [(0, Map.empty), (1, Map.empty), (2, Map.empty)],
                g_edges = [(0, 1, Map.empty), (1, 2, Map.empty)]\<rparr>"

section \<open>SimplicialComplex\<close>















definition after_removal :: path_complex where
  "after_removal = snd (remove_paths edge_complex [[0, 1], [0]])"

section \<open>Boundary of a boundary\<close>

definition del :: "nat \<Rightarrow> 'a list \<Rightarrow> 'a list" where
  "del i s = take i s @ drop (Suc i) s"


section \<open>Insertion\<close>

text \<open>
  C7. An insertion request that fails validation (duplicate nodes in the path, or, outside
  reserve-order mode, a first node that string-compares greater than the last) raises
  ValueError and leaves the complex exactly as it was: buckets, max_dim and allowed paths.
\<close>

theorem add_path_validation_atomic:
  assumes "\<not> distinct path \<or>
           (1 < length path \<and> str (last path) < str (hd path) \<and> \<not> reserve_sequence_order pc)"
  shows "add_path pc path attr = (Inl ValueError, pc)"
proof (cases "distinct path")
  case False
  then have "length path \<noteq> card (set path)"
    using card_distinct [of path] by auto
  then show ?thesis by (simp add: add_path_def)
next
  case True
  with assms show ?thesis by (simp add: add_path_def)
qed

theorem add_path_validation_atomic_witness:
  "add_path (empty_complex {} False) [1, 0] Map.empty = (Inl ValueError, empty_complex {} False)
   \<and> add_path (empty_complex {} False) [3, 3] Map.empty = (Inl ValueError, empty_complex {} False)"
proof -
  have a: "str (last [1, 0 :: int]) < str (hd [1, 0 :: int])"
    by (simp add: str_def str_nat.simps digit_char_def)
  have b: "\<not> reserve_sequence_order (empty_complex {} False)"
    by (simp add: empty_complex_def)
  have c: "\<not> distinct [3, 3 :: int]" by simp
  show ?thesis
    using add_path_validation_atomic [of "[1, 0]" "empty_complex {} False" Map.empty]
          add_path_validation_atomic [of "[3, 3]" "empty_complex {} False" Map.empty]
          a b c
    by simp
qed

lemma digit_char_inj: "a < 10 \<Longrightarrow> b < 10 \<Longrightarrow> digit_char a = digit_char b \<Longrightarrow> a = b"
proof -
  assume a: "a < 10" and b: "b < 10" and e: "digit_char a = digit_char b"
  have A: "a \<in> {0,1,2,3,4,5,6,7,8,9}" using a by auto
  have B: "b \<in> {0,1,2,3,4,5,6,7,8,9}" using b by auto
  show ?thesis using A B e by (auto simp: digit_char_def)
qed

lemma digit_char_not_minus: "digit_char a \<noteq> CHR ''-''"
proof -
  have r: "\<And>m::nat. m < 10 \<Longrightarrow> m \<in> {0,1,2,3,4,5,6,7,8,9}" by auto
  have A: "a mod 10 \<in> {0,1,2,3,4,5,6,7,8,9}" by (rule r) simp
  have "digit_char (a mod 10) \<noteq> CHR ''-''" using A by (auto simp: digit_char_def)
  then show ?thesis by (simp add: digit_char_def)
qed

lemma str_nat_nonempty: "str_nat n \<noteq> []"
  by (subst str_nat.simps) simp

lemma str_nat_length1: "length (str_nat n) = Suc 0 \<longleftrightarrow> n < 10"
proof (cases "n < 10")
  case True then show ?thesis by (subst str_nat.simps) simp
next
  case False
  then show ?thesis by (subst str_nat.simps) (simp add: str_nat_nonempty)
qed

lemma str_nat_inj: "str_nat a = str_nat b \<Longrightarrow> a = b"
proof (induction a arbitrary: b rule: str_nat.induct)
  case (1 n)
  show ?case
  proof (cases "n < 10")
    case True
    then have "length (str_nat b) = Suc 0" using "1.prems" str_nat_length1 [of n] by simp
    then have b: "b < 10" by (simp add: str_nat_length1)
    have "[digit_char n] = [digit_char b]" using "1.prems" True b by (simp add: str_nat.simps)
    then show ?thesis using True b digit_char_inj by simp
  next
    case False
    then have "length (str_nat b) \<noteq> Suc 0" using "1.prems" str_nat_length1 [of n] by simp
    then have b: "\<not> b < 10" by (simp add: str_nat_length1)
    have e: "str_nat (n div 10) @ [digit_char (n mod 10)] = str_nat (b div 10) @ [digit_char (b mod 10)]"
      using "1.prems" False b by (simp add: str_nat.simps)
    then have "str_nat (n div 10) = str_nat (b div 10)" and d: "digit_char (n mod 10) = digit_char (b mod 10)" by auto
    then have "n div 10 = b div 10" using "1.IH" False by blast
    moreover have "n mod 10 = b mod 10" using d digit_char_inj [of "n mod 10" "b mod 10"] by simp
    ultimately show ?thesis by (metis div_mult_mod_eq)
  qed
qed

lemma str_nat_hd: "hd (str_nat n) \<noteq> CHR ''-''"
proof (induction n rule: str_nat.induct)
  case (1 n)
  show ?case
  proof (cases "n < 10")
    case True then show ?thesis by (subst str_nat.simps) (simp add: digit_char_not_minus)
  next
    case False
    then show ?thesis using "1.IH" str_nat_nonempty [of "n div 10"] by (subst str_nat.simps) simp
  qed
qed

lemma str_inj: "str a = str b \<Longrightarrow> a = b"
proof -
  assume e: "str a = str b"
  have h: "\<And>n m. CHR ''-'' # str_nat n \<noteq> str_nat m"
    using str_nat_hd by (metis list.sel(1))
  show ?thesis
  proof (cases "a < 0"; cases "b < 0")
    assume "a < 0" "b < 0"
    then show ?thesis using e str_nat_inj [of "nat (- a)" "nat (- b)"] by (simp add: str_def)
  next
    assume "a < 0" "\<not> b < 0"
    then show ?thesis using e h by (simp add: str_def)
  next
    assume "\<not> a < 0" "b < 0"
    then show ?thesis using e h [of "nat (-b)" "nat a"] by (simp add: str_def)
  next
    assume "\<not> a < 0" "\<not> b < 0"
    then show ?thesis using e str_nat_inj [of "nat a" "nat b"] by (simp add: str_def)
  qed
qed

lemma py_index_Some: "py_index xs i = Some j \<Longrightarrow> j < length xs"
  by (auto simp: py_index_def Let_def split: if_splits)

lemma py_index_pred: "0 < n \<Longrightarrow> n \<le> length xs \<Longrightarrow> py_index xs (int n - 1) = Some (n - 1)"
  by (auto simp: py_index_def Let_def)

lemma orient_canon: "s \<noteq> [] \<Longrightarrow> orient reserve s = Inr (canon reserve s)"
  by (simp add: orient_def canon_def)

lemma canon_length [simp]: "length (canon reserve s) = length s"
  by (simp add: canon_def)

lemma canon_Nil [simp]: "canon reserve s = [] \<longleftrightarrow> s = []"
  by (simp add: canon_def)

lemma update_faces_dict_entry_eq:
  assumes "p \<noteq> []" "length p \<le> length (faces_dict pc)"
  shows "update_faces_dict_entry pc p =
           (Inr (if p \<in> fd_keys (faces_dict pc) (length p - 1) then None else Some p),
            pc\<lparr>faces_dict := ins_key (faces_dict pc) p\<rparr>)"
proof -
  have "0 < length p" using assms by simp
  then have "py_index (faces_dict pc) (int (length p) - 1) = Some (length p - 1)"
    using assms py_index_pred by blast
  moreover have "length p - 1 < length (faces_dict pc)" using assms \<open>0 < length p\<close> by linarith
  ultimately show ?thesis
    by (simp add: update_faces_dict_entry_def ins_key_def fd_keys_def)
qed

lemma ins_key_length [simp]: "length (ins_key fd p) = length fd"
  by (simp add: ins_key_def)

lemma fd_keys_ins_key:
  "p \<noteq> [] \<Longrightarrow> length p \<le> length fd \<Longrightarrow>
   fd_keys (ins_key fd p) r = fd_keys fd r \<union> (if r = length p - 1 then {p} else {})"
  by (auto simp: ins_key_def fd_keys_def bucket_keys_def nth_list_update)

lemma fold_ins_key_length [simp]: "length (fold (\<lambda>p fd. ins_key fd p) ps fd) = length fd"
  by (induction ps arbitrary: fd) auto

lemma fd_keys_fold_ins_key:
  "\<forall>p\<in>set ps. p \<noteq> [] \<and> length p \<le> length fd \<Longrightarrow>
   fd_keys (fold (\<lambda>p fd. ins_key fd p) ps fd) r = fd_keys fd r \<union> {p \<in> set ps. length p = r + 1}"
proof (induction ps arbitrary: fd)
  case Nil
  then show ?case by simp
next
  case (Cons a ps)
  have "fd_keys (fold (\<lambda>p fd. ins_key fd p) ps (ins_key fd a)) r
        = fd_keys (ins_key fd a) r \<union> {p \<in> set ps. length p = r + 1}"
    using Cons.prems by (intro Cons.IH) simp
  moreover have "a \<noteq> []" "length a \<le> length fd" using Cons.prems by auto
  ultimately show ?case
    by (auto simp: fd_keys_ins_key)
qed

lemma add_sub_paths_eq:
  assumes "\<forall>s\<in>set sps. s \<noteq> [] \<and> length s \<le> length (faces_dict pc)"
  shows "add_sub_paths pc np sps =
           (Inr (np \<union> {q \<in> set (map (canon (reserve_sequence_order pc)) sps).
                         q \<notin> fd_keys (faces_dict pc) (length q - 1)}),
            pc\<lparr>faces_dict := fold (\<lambda>p fd. ins_key fd p) (map (canon (reserve_sequence_order pc)) sps) (faces_dict pc)\<rparr>)"
  using assms
proof (induction sps arbitrary: pc np)
  case Nil
  then show ?case by simp
next
  case (Cons s sps)
  let ?q = "canon (reserve_sequence_order pc) s"
  let ?pc' = "pc\<lparr>faces_dict := ins_key (faces_dict pc) ?q\<rparr>"
  have s: "s \<noteq> []" "length s \<le> length (faces_dict pc)" using Cons.prems by auto
  have o: "orient (reserve_sequence_order pc) s = Inr ?q" using s by (simp add: orient_canon)
  have u: "update_faces_dict_entry pc ?q =
           (Inr (if ?q \<in> fd_keys (faces_dict pc) (length ?q - 1) then None else Some ?q), ?pc')"
    using s by (intro update_faces_dict_entry_eq) auto
  have pre: "\<forall>s\<in>set sps. s \<noteq> [] \<and> length s \<le> length (faces_dict ?pc')"
    using Cons.prems by simp
  have ih: "\<And>np. add_sub_paths ?pc' np sps =
           (Inr (np \<union> {q \<in> set (map (canon (reserve_sequence_order ?pc')) sps).
                         q \<notin> fd_keys (faces_dict ?pc') (length q - 1)}),
            ?pc'\<lparr>faces_dict := fold (\<lambda>p fd. ins_key fd p) (map (canon (reserve_sequence_order ?pc')) sps) (faces_dict ?pc')\<rparr>)"
    using Cons.IH [OF pre] by blast
  have k: "\<And>r. fd_keys (ins_key (faces_dict pc) ?q) r = fd_keys (faces_dict pc) r \<union> (if r = length ?q - 1 then {?q} else {})"
    using s by (intro fd_keys_ins_key) auto
  show ?case
  proof (cases "?q \<in> fd_keys (faces_dict pc) (length ?q - 1)")
    case True
    then show ?thesis using o u ih k by (auto simp: )
  next
    case False
    then show ?thesis using o u ih k by (auto simp: )
  qed
qed

lemma sub_sequences_UN:
  "set (sub_sequences p) = (\<Union>l\<in>{1..<length p + 1}. (\<lambda>i. take l (drop i p)) ` {0..<length p - l + 1})"
  unfolding sub_sequences_def by (simp only: set_concat set_map set_rev set_upt image_image)

lemma in_sub_sequences:
  "s \<in> set (sub_sequences p) \<longleftrightarrow> (\<exists>l i. 1 \<le> l \<and> i + l \<le> length p \<and> s = take l (drop i p))"
proof
  assume "s \<in> set (sub_sequences p)"
  then obtain l i where "l \<in> {1..<length p + 1}" "i \<in> {0..<length p - l + 1}" "s = take l (drop i p)"
    unfolding sub_sequences_UN by blast
  moreover from this have "1 \<le> l \<and> i + l \<le> length p"
    by (auto simp only: atLeastLessThan_iff)
  ultimately show "\<exists>l i. 1 \<le> l \<and> i + l \<le> length p \<and> s = take l (drop i p)" by blast
next
  assume "\<exists>l i. 1 \<le> l \<and> i + l \<le> length p \<and> s = take l (drop i p)"
  then obtain l i where h: "1 \<le> l" "i + l \<le> length p" "s = take l (drop i p)" by blast
  have "l \<in> {1..<length p + 1}" using h(1,2) by (auto simp only: atLeastLessThan_iff)
  moreover have "i \<in> {0..<length p - l + 1}" using h(1,2) by (auto simp only: atLeastLessThan_iff)
  ultimately show "s \<in> set (sub_sequences p)" unfolding sub_sequences_UN using h(3) by blast
qed

lemma sub_sequences_props:
  "s \<in> set (sub_sequences p) \<Longrightarrow> s \<noteq> [] \<and> length s \<le> length p"
  by (auto simp: in_sub_sequences)

lemma self_in_sub_sequences: "p \<noteq> [] \<Longrightarrow> p \<in> set (sub_sequences p)"
proof -
  assume "p \<noteq> []"
  then have "1 \<le> length p \<and> 0 + length p \<le> length p" by (cases p) auto
  moreover have "p = take (length p) (drop 0 p)" by simp
  ultimately show ?thesis unfolding in_sub_sequences by blast
qed

lemma grow_length [simp]: "length (grow fd n) = max (length fd) n"
  by (simp add: grow_def)

lemma fd_keys_grow [simp]: "fd_keys (grow fd n) r = fd_keys fd r"
  by (auto simp: grow_def fd_keys_def nth_append bucket_keys_def)

lemma bucket_keys_update [simp]: "bucket_keys (bucket_update b p attr) = bucket_keys b"
  by (induction b) (auto simp: bucket_update_def bucket_keys_def)

lemma valid_canon: "valid_path reserve p \<Longrightarrow> canon reserve p = p"
  by (auto simp: valid_path_def canon_def)

lemma fd_keys_ins_all:
  "p \<noteq> [] \<Longrightarrow> fd_keys (ins_all reserve fd p) r =
     fd_keys fd r \<union> (if p \<in> fd_keys fd (length p - 1) then {}
                      else {q \<in> canon reserve ` set (sub_sequences p). length q = r + 1})"
proof -
  assume "p \<noteq> []"
  have "\<forall>q\<in>set (map (canon reserve) (sub_sequences p)). q \<noteq> [] \<and> length q \<le> length (grow fd (length p))"
    by (auto dest!: sub_sequences_props)
  from fd_keys_fold_ins_key [OF this] show ?thesis
    by (simp add: ins_all_def)
qed

lemma ins_all_length [simp]: "length (ins_all reserve fd p) = max (length fd) (length p)"
  by (simp add: ins_all_def)

lemma add_path_eq:
  assumes "valid_path (reserve_sequence_order pc) p"
  shows "add_path pc p attr =
     (Inr (),
      pc\<lparr>faces_dict := (ins_all (reserve_sequence_order pc) (faces_dict pc) p)
             [length p - 1 := bucket_update (ins_all (reserve_sequence_order pc) (faces_dict pc) p ! (length p - 1)) p attr],
         max_dim := max (max_dim pc) (int (length p) - 1),
         allowed_paths := allowed_paths pc \<union>
            (if p \<in> fd_keys (faces_dict pc) (length p - 1) then {}
             else {q \<in> canon (reserve_sequence_order pc) ` set (sub_sequences p).
                   q \<notin> fd_keys (faces_dict pc) (length q - 1)})\<rparr>)"
proof -
  let ?res = "reserve_sequence_order pc"
  let ?r = "length p - 1"
  let ?fd1 = "grow (faces_dict pc) (length p)"
  let ?pc1 = "update_faces_dict_length pc p"
  let ?pc2 = "if max_dim ?pc1 < int (length p) - 1 then ?pc1\<lparr>max_dim := int (length p) - 1\<rparr> else ?pc1"
  have p: "p \<noteq> []" "distinct p" "0 < length p" using assms by (auto simp: valid_path_def)
  have v1: "(length p \<noteq> card (set p)) = False" using p by (simp add: distinct_card)
  have v2: "(length p > 1 \<and> str (hd p) > str (last p) \<and> \<not> ?res) = False"
    using assms by (auto simp: valid_path_def)
  have pc1: "?pc1 = pc\<lparr>faces_dict := ?fd1\<rparr>"
    by (simp add: update_faces_dict_length_def grow_def)
  have pc2: "?pc2 = pc\<lparr>faces_dict := ?fd1, max_dim := max (max_dim pc) (int (length p) - 1)\<rparr>"
    by (simp add: pc1 max_def)
  have idx: "\<And>fd. length p \<le> length fd \<Longrightarrow> py_index fd (int (length p) - 1) = Some ?r"
    using p py_index_pred by blast
  have rlt: "?r < length ?fd1" using p by (cases p) (auto simp: less_max_iff_disj)
  have ua: "update_attrs q p attr = (Inr (), q\<lparr>faces_dict := (faces_dict q)[?r := bucket_update (faces_dict q ! ?r) p attr]\<rparr>)"
    if "length p \<le> length (faces_dict q)" "p \<in> fd_keys (faces_dict q) ?r" for q
  proof -
    have "py_index (faces_dict q) (int (length p) - 1) = Some ?r" using that(1) by (rule idx)
    moreover have "p \<in> set (bucket_keys (faces_dict q ! ?r))"
      using that(2) by (auto simp: fd_keys_def split: if_splits)
    ultimately show ?thesis by (simp add: update_attrs_def)
  qed
  show ?thesis
  proof (cases "p \<in> fd_keys (faces_dict pc) ?r")
    case True
    then have T: "p \<in> set (bucket_keys (?fd1 ! ?r))"
      using rlt fd_keys_grow [of "faces_dict pc" "length p" ?r] by (simp add: fd_keys_def)
    have ia: "ins_all ?res (faces_dict pc) p = ?fd1" using True by (simp add: ins_all_def)
    have "add_path pc p attr = update_attrs ?pc2 p attr"
      unfolding add_path_def Let_def v1 v2 if_False pc2 using T idx [of ?fd1]
      by simp
    also have "\<dots> = (Inr (), ?pc2\<lparr>faces_dict := (faces_dict ?pc2)[?r := bucket_update (faces_dict ?pc2 ! ?r) p attr]\<rparr>)"
      by (rule ua) (use True in \<open>simp_all add: pc2\<close>)
    finally show ?thesis using True by (simp add: pc2 ia)
  next
    case False
    then have F: "p \<notin> set (bucket_keys (?fd1 ! ?r))"
      using rlt fd_keys_grow [of "faces_dict pc" "length p" ?r] by (simp add: fd_keys_def)
    have ia: "ins_all ?res (faces_dict pc) p
        = fold (\<lambda>q fd. ins_key fd q) (map (canon ?res) (sub_sequences p)) ?fd1"
      using False by (simp add: ins_all_def)
    have pre: "\<forall>s\<in>set (sub_sequences p). s \<noteq> [] \<and> length s \<le> length (faces_dict ?pc2)"
      using sub_sequences_props by (fastforce simp: pc2)
    let ?new = "{q \<in> canon ?res ` set (sub_sequences p). q \<notin> fd_keys (faces_dict pc) (length q - 1)}"
    have asp: "add_sub_paths ?pc2 {} (sub_sequences p) =
        (Inr ?new, ?pc2\<lparr>faces_dict := ins_all ?res (faces_dict pc) p\<rparr>)"
      using add_sub_paths_eq [OF pre, of "{}"] by (simp add: pc2 ia)
    have pin: "p \<in> ?new"
      using False self_in_sub_sequences [OF p(1)] valid_canon [OF assms] by force
    then have ne: "?new \<noteq> {}" by blast
    let ?pc4 = "?pc2\<lparr>faces_dict := ins_all ?res (faces_dict pc) p, allowed_paths := allowed_paths pc \<union> ?new\<rparr>"
    have "add_path pc p attr = update_attrs ?pc4 p attr"
      unfolding add_path_def Let_def v1 v2 if_False using F idx [of ?fd1] asp ne
      unfolding pc2 by simp
    also have "\<dots> = (Inr (), ?pc4\<lparr>faces_dict := (faces_dict ?pc4)[?r := bucket_update (faces_dict ?pc4 ! ?r) p attr]\<rparr>)"
    proof (rule ua)
      show "length p \<le> length (faces_dict ?pc4)" by simp
      have "p \<in> fd_keys (ins_all ?res (faces_dict pc) p) ?r"
        using pin p by (simp add: fd_keys_ins_all [OF p(1)]) 
      then show "p \<in> fd_keys (faces_dict ?pc4) ?r" by simp
    qed
    finally show ?thesis using False by (simp add: pc2)
  qed
qed

lemma sub_sequences_Nil [simp]: "sub_sequences [] = []"
  by (simp add: sub_sequences_def)

lemma sub_sequences_trans:
  assumes "s \<in> set (sub_sequences t)" "t \<in> set (sub_sequences p)"
  shows "s \<in> set (sub_sequences p)"
proof -
  obtain l i where a: "1 \<le> l" "i + l \<le> length t" "s = take l (drop i t)"
    using assms(1) unfolding in_sub_sequences by blast
  obtain l' i' where b: "1 \<le> l'" "i' + l' \<le> length p" "t = take l' (drop i' p)"
    using assms(2) unfolding in_sub_sequences by blast
  have lt: "length t = l'" using b by simp
  have "s = take l (drop (i' + i) p)"
    using a lt by (simp add: b(3) drop_take min_def add.commute)
  moreover have "(i' + i) + l \<le> length p" using a b lt by linarith
  ultimately show ?thesis unfolding in_sub_sequences using a(1) by blast
qed

lemma sub_sequences_rev:
  assumes "s \<in> set (sub_sequences (rev t))"
  shows "rev s \<in> set (sub_sequences t)"
proof -
  obtain l i where a: "1 \<le> l" "i + l \<le> length t" "s = take l (drop i (rev t))"
    using assms unfolding in_sub_sequences by auto
  have "rev s = take l (drop (length t - (i + l)) t)"
    using a by (simp add: rev_take rev_drop drop_take)
  moreover have "(length t - (i + l)) + l \<le> length t" using a by linarith
  ultimately show ?thesis unfolding in_sub_sequences using a(1) by blast
qed

lemma sub_sequences_distinct:
  "s \<in> set (sub_sequences p) \<Longrightarrow> distinct p \<Longrightarrow> distinct s"
  by (auto simp: in_sub_sequences)

lemma canon_rev: "distinct s \<Longrightarrow> canon False (rev s) = canon False s"
proof (cases "length s \<le> 1")
  case True
  then have "rev s = s" by (cases s) auto
  then show ?thesis by simp
next
  case False
  assume d: "distinct s"
  from False obtain a s' where s': "s = a # s'" "s' \<noteq> []" by (cases s) auto
  then obtain m b where "s' = m @ [b]" by (cases s' rule: rev_cases) auto
  with s' have s: "s = a # m @ [b]" by simp
  then have "a \<noteq> b" using d by auto
  then have "str a \<noteq> str b" using str_inj by blast
  then show ?thesis by (auto simp: canon_def s)
qed

lemma valid_canon_sub:
  assumes "s \<noteq> []" "distinct s"
  shows "valid_path reserve (canon reserve s)"
proof -
  have "hd (rev s) = last s" "last (rev s) = hd s" using assms(1) by (simp_all add: hd_rev last_rev)
  then show ?thesis using assms by (auto simp: valid_path_def canon_def)
qed

lemma fd_keys_update_same:
  "bucket_keys b = bucket_keys (fd ! k) \<Longrightarrow> fd_keys (fd[k := b]) r = fd_keys fd r"
  by (cases "r = k") (auto simp: fd_keys_def)

lemma add_path_fields:
  assumes "valid_path (reserve_sequence_order pc) p"
  shows "fst (add_path pc p attr) = Inr ()"
    and "reserve_sequence_order (snd (add_path pc p attr)) = reserve_sequence_order pc"
    and "max_dim (snd (add_path pc p attr)) = max (max_dim pc) (int (length p) - 1)"
    and "length (faces_dict (snd (add_path pc p attr))) = max (length (faces_dict pc)) (length p)"
    and "allowed_paths (snd (add_path pc p attr)) = allowed_paths pc \<union>
            (if p \<in> fd_keys (faces_dict pc) (length p - 1) then {}
             else {q \<in> canon (reserve_sequence_order pc) ` set (sub_sequences p).
                   q \<notin> fd_keys (faces_dict pc) (length q - 1)})"
    and "fd_keys (faces_dict (snd (add_path pc p attr))) r =
           fd_keys (faces_dict pc) r \<union>
            (if p \<in> fd_keys (faces_dict pc) (length p - 1) then {}
             else {q \<in> canon (reserve_sequence_order pc) ` set (sub_sequences p). length q = r + 1})"
proof -
  note e = add_path_eq [OF assms, of attr]
  have p: "p \<noteq> []" using assms by (simp add: valid_path_def)
  show "fst (add_path pc p attr) = Inr ()" by (simp add: e)
  show "reserve_sequence_order (snd (add_path pc p attr)) = reserve_sequence_order pc" by (simp add: e)
  show "max_dim (snd (add_path pc p attr)) = max (max_dim pc) (int (length p) - 1)" by (simp add: e)
  show "length (faces_dict (snd (add_path pc p attr))) = max (length (faces_dict pc)) (length p)"
    by (simp add: e)
  show "allowed_paths (snd (add_path pc p attr)) = allowed_paths pc \<union>
            (if p \<in> fd_keys (faces_dict pc) (length p - 1) then {}
             else {q \<in> canon (reserve_sequence_order pc) ` set (sub_sequences p).
                   q \<notin> fd_keys (faces_dict pc) (length q - 1)})" by (simp add: e)
  have "fd_keys (faces_dict (snd (add_path pc p attr))) r
        = fd_keys (ins_all (reserve_sequence_order pc) (faces_dict pc) p) r"
    by (simp add: e fd_keys_update_same)
  then show "fd_keys (faces_dict (snd (add_path pc p attr))) r =
           fd_keys (faces_dict pc) r \<union>
            (if p \<in> fd_keys (faces_dict pc) (length p - 1) then {}
             else {q \<in> canon (reserve_sequence_order pc) ` set (sub_sequences p). length q = r + 1})"
    by (simp only: fd_keys_ins_all [OF p])
qed

lemma fd_distinct_update:
  "fd_distinct fd \<Longrightarrow> distinct (bucket_keys b) \<Longrightarrow> fd_distinct (fd[k := b])"
  unfolding fd_distinct_def using set_update_subset_insert [of fd k b] by auto

lemma fd_distinct_nth: "fd_distinct fd \<Longrightarrow> k < length fd \<Longrightarrow> distinct (bucket_keys (fd ! k))"
  by (simp add: fd_distinct_def)

lemma fd_distinct_ins_key: "fd_distinct fd \<Longrightarrow> fd_distinct (ins_key fd p)"
proof (cases "length p - 1 < length fd")
  case True
  assume d: "fd_distinct fd"
  show ?thesis
  proof (cases "p \<in> set (bucket_keys (fd ! (length p - 1)))")
    case True then show ?thesis using d by (simp add: ins_key_def)
  next
    case False
    then have "distinct (bucket_keys (fd ! (length p - 1) @ [(p, Map.empty)]))"
      using fd_distinct_nth [OF d \<open>length p - 1 < length fd\<close>] by (simp add: bucket_keys_def)
    then show ?thesis using False d by (simp add: ins_key_def fd_distinct_update)
  qed
next
  case False
  assume "fd_distinct fd"
  then show ?thesis using False by (simp add: ins_key_def list_update_beyond)
qed

lemma fd_distinct_fold: "fd_distinct fd \<Longrightarrow> fd_distinct (fold (\<lambda>q fd. ins_key fd q) qs fd)"
  by (induction qs arbitrary: fd) (auto simp: fd_distinct_ins_key)

lemma fd_distinct_grow: "fd_distinct fd \<Longrightarrow> fd_distinct (grow fd n)"
  by (auto simp: fd_distinct_def grow_def bucket_keys_def)

lemma fd_distinct_ins_all: "fd_distinct fd \<Longrightarrow> fd_distinct (ins_all reserve fd p)"
  by (simp add: ins_all_def fd_distinct_grow fd_distinct_fold)

lemma add_path_distinct:
  assumes "valid_path (reserve_sequence_order pc) p" "fd_distinct (faces_dict pc)"
  shows "fd_distinct (faces_dict (snd (add_path pc p attr)))"
proof -
  let ?F = "ins_all (reserve_sequence_order pc) (faces_dict pc) p"
  have d: "fd_distinct ?F" using assms(2) by (rule fd_distinct_ins_all)
  have "length p - 1 < length ?F" using assms(1) by (cases p) (auto simp: valid_path_def less_max_iff_disj)
  then have "distinct (bucket_keys (bucket_update (?F ! (length p - 1)) p attr))"
    using fd_distinct_nth [OF d] by simp
  then show ?thesis using d by (simp add: add_path_eq [OF assms(1)] fd_distinct_update)
qed

lemma add_path_invalid:
  assumes "pc_inv pc" "\<not> valid_path (reserve_sequence_order pc) p"
  shows "snd (add_path pc p attr) = pc \<and> fst (add_path pc p attr) \<noteq> Inr ()"
proof (cases "p = []")
  case True
  have m: "\<not> max_dim pc < - 1" using assms(1) by (simp add: pc_inv_def)
  have pc2: "update_faces_dict_length pc [] = pc" by (simp add: update_faces_dict_length_def)
  show ?thesis
  proof (cases "faces_dict pc = []")
    case T2: True
    then show ?thesis using True m by (simp add: add_path_def pc2 py_index_def)
  next
    case False
    then have idx: "py_index (faces_dict pc) (- 1) = Some (length (faces_dict pc) - 1)"
      by (cases "faces_dict pc") (auto simp: py_index_def Let_def)
    have "[] \<notin> fd_keys (faces_dict pc) (length (faces_dict pc) - 1)"
      using assms(1) unfolding pc_inv_def by fastforce
    then have nk: "[] \<notin> set (bucket_keys (faces_dict pc ! (length (faces_dict pc) - 1)))"
      using False by (simp add: fd_keys_def)
    show ?thesis using True m idx nk
      by (simp add: add_path_def pc2 update_attrs_def)
  qed
next
  case False
  then have "\<not> distinct p \<or> (1 < length p \<and> str (last p) < str (hd p) \<and> \<not> reserve_sequence_order pc)"
  proof -
    have "1 < length p" if "str (last p) < str (hd p)"
    proof (rule ccontr)
      assume "\<not> 1 < length p"
      then obtain a where "p = [a]" using False by (cases p) auto
      then show False using that by simp
    qed
    then show ?thesis using assms(2) False by (auto simp: valid_path_def)
  qed
  then have "add_path pc p attr = (Inl ValueError, pc)"
  proof
    assume "\<not> distinct p"
    then have "length p \<noteq> card (set p)" using card_distinct [of p] by auto
    then show ?thesis by (simp add: add_path_def)
  next
    assume a: "1 < length p \<and> str (last p) < str (hd p) \<and> \<not> reserve_sequence_order pc"
    then show ?thesis by (simp add: add_path_def)
  qed
  then show ?thesis by simp
qed

lemma add_path_inv:
  assumes "pc_inv pc"
  shows "pc_inv (snd (add_path pc p attr))"
proof (cases "valid_path (reserve_sequence_order pc) p")
  case False
  then show ?thesis using add_path_invalid [OF assms False] assms by simp
next
  case True
  note f = add_path_fields [OF True, of attr]
  let ?pc' = "snd (add_path pc p attr)"
  let ?res = "reserve_sequence_order pc"
  have p: "p \<noteq> []" "distinct p" using True by (auto simp: valid_path_def)
  have old: "\<And>r q. q \<in> fd_keys (faces_dict pc) r \<Longrightarrow>
        length q = r + 1 \<and> valid_path ?res q \<and> q \<in> allowed_paths pc"
    using assms unfolding pc_inv_def by blast
  have k: "length q = r + 1 \<and> valid_path ?res q \<and> q \<in> allowed_paths ?pc'"
    if "q \<in> fd_keys (faces_dict ?pc') r" for q r
  proof (cases "q \<in> fd_keys (faces_dict pc) r")
    case T: True
    then show ?thesis using old [OF T] by (simp add: f(5))
  next
    case F: False
    then have np: "p \<notin> fd_keys (faces_dict pc) (length p - 1)"
      and q: "q \<in> canon ?res ` set (sub_sequences p)" "length q = r + 1"
      using that unfolding f(6) by (auto split: if_splits)
    then obtain s where s: "s \<in> set (sub_sequences p)" "q = canon ?res s" by blast
    have "s \<noteq> []" "distinct s" using s(1) p sub_sequences_props sub_sequences_distinct by blast+
    then have "valid_path ?res q" unfolding s(2) by (rule valid_canon_sub)
    moreover have "q \<in> allowed_paths ?pc'" using np q F unfolding f(5) by simp
    ultimately show ?thesis using q(2) by simp
  qed
  have d: "fd_distinct (faces_dict ?pc')"
    using assms add_path_distinct [OF True] by (simp add: pc_inv_def fd_distinct_def)
  have m: "- 1 \<le> max_dim ?pc'" "max_dim ?pc' < int (length (faces_dict ?pc'))"
    using assms p unfolding f(3,4) pc_inv_def by (cases p; auto)+
  have e: "int r \<le> max_dim ?pc'" if "fd_keys (faces_dict ?pc') r \<noteq> {}" for r
  proof -
    from that obtain q where q: "q \<in> fd_keys (faces_dict ?pc') r" by blast
    show ?thesis
    proof (cases "q \<in> fd_keys (faces_dict pc) r")
      case T: True
      then have "int r \<le> max_dim pc" using assms unfolding pc_inv_def by blast
      then show ?thesis unfolding f(3) by simp
    next
      case F: False
      then obtain s where "s \<in> set (sub_sequences p)" "q = canon ?res s" "length q = r + 1"
        using q unfolding f(6) by (auto split: if_splits)
      then have "r + 1 \<le> length p" using sub_sequences_props by fastforce
      then show ?thesis unfolding f(3) by simp
    qed
  qed
  show ?thesis
    unfolding pc_inv_def f(2) using k d m e by (auto simp: fd_distinct_def)
qed

lemma canon_set [simp]: "set (canon reserve s) = set s"
  by (simp add: canon_def)

lemma add_path_closed:
  assumes "pc_inv pc" "pc_closed pc"
  shows "pc_closed (snd (add_path pc p attr))"
proof (cases "valid_path (reserve_sequence_order pc) p")
  case False
  then show ?thesis using add_path_invalid [OF assms(1) False] assms(2) by simp
next
  case True
  note f = add_path_fields [OF True, of attr]
  let ?pc' = "snd (add_path pc p attr)"
  let ?res = "reserve_sequence_order pc"
  have p: "p \<noteq> []" "distinct p" using True by (auto simp: valid_path_def)
  have "canon ?res s \<in> fd_keys (faces_dict ?pc') (length s - 1)"
    if q: "q \<in> fd_keys (faces_dict ?pc') r" and s: "s \<in> set (sub_sequences q)" for q r s
  proof (cases "q \<in> fd_keys (faces_dict pc) r")
    case T: True
    then have "canon ?res s \<in> fd_keys (faces_dict pc) (length s - 1)"
      using assms(2) s unfolding pc_closed_def by blast
    then show ?thesis unfolding f(6) by simp
  next
    case F: False
    then have np: "p \<notin> fd_keys (faces_dict pc) (length p - 1)"
      and "q \<in> canon ?res ` set (sub_sequences p)"
      using q unfolding f(6) by (auto split: if_splits)
    then obtain s0 where s0: "s0 \<in> set (sub_sequences p)" "q = canon ?res s0" by blast
    have sne: "s \<noteq> []" using s sub_sequences_props by blast
    have "\<exists>t \<in> set (sub_sequences p). canon ?res s = canon ?res t"
    proof (cases "q = s0")
      case True
      then show ?thesis using s s0(1) sub_sequences_trans by blast
    next
      case False
      then have r: "\<not> ?res" "q = rev s0" using s0(2) by (auto simp: canon_def split: if_splits)
      then have "rev s \<in> set (sub_sequences s0)" using s sub_sequences_rev by blast
      then have 1: "rev s \<in> set (sub_sequences p)" using s0(1) sub_sequences_trans by blast
      have "distinct (rev s)" using 1 p(2) sub_sequences_distinct by blast
      then have "distinct s" by simp
      then have "canon ?res s = canon ?res (rev s)" using r(1) canon_rev by simp
      then show ?thesis using 1 by blast
    qed
    then obtain t where t: "t \<in> set (sub_sequences p)" "canon ?res s = canon ?res t" by blast
    have "length (canon ?res s) = (length s - 1) + 1" using sne by (cases s) auto
    then show ?thesis unfolding f(6) using np t by auto
  qed
  then show ?thesis unfolding pc_closed_def f(2) by blast
qed

lemma bucket_keys_filter:
  "bucket_keys (filter (\<lambda>(k, v). k \<noteq> p) b) = filter (\<lambda>k. k \<noteq> p) (bucket_keys b)"
  by (induction b) (auto simp: bucket_keys_def)

lemma remove_path_ok:
  assumes "pc_inv pc" "p \<in> fd_keys (faces_dict pc) r"
  shows "fst (remove_path pc p) = Inr ()"
    and "pc_inv (snd (remove_path pc p))"
    and "fd_keys (faces_dict (snd (remove_path pc p))) k = fd_keys (faces_dict pc) k - {p}"
    and "reserve_sequence_order (snd (remove_path pc p)) = reserve_sequence_order pc"
proof -
  let ?fd = "faces_dict pc"
  have a: "length p = r + 1" "p \<in> allowed_paths pc" using assms unfolding pc_inv_def by blast+
  have rl: "r < length ?fd" using assms(2) by (auto simp: fd_keys_def split: if_splits)
  have r: "length p - 1 = r" using a by simp
  have idx: "py_index ?fd (int (length p) - 1) = Some r"
    using py_index_pred [of "length p" ?fd] a rl by simp
  have mem: "p \<in> set (bucket_keys (?fd ! r))" using assms(2) rl by (simp add: fd_keys_def)
  let ?fd' = "?fd[r := filter (\<lambda>(k, v). k \<noteq> p) (?fd ! r)]"
  let ?m = "if length (?fd' ! r) = 0 \<and> max_dim pc = int (length p) - 1 then max_dim pc - 1 else max_dim pc"
  have e: "remove_path pc p = (Inr (), pc\<lparr>faces_dict := ?fd', allowed_paths := allowed_paths pc - {p}, max_dim := ?m\<rparr>)"
    using idx mem a(2) by (simp add: remove_path_def Let_def)
  show "fst (remove_path pc p) = Inr ()" by (simp add: e)
  show "reserve_sequence_order (snd (remove_path pc p)) = reserve_sequence_order pc" by (simp add: e)
  have only: "p \<notin> fd_keys ?fd k" if "k \<noteq> r" for k
    using assms(1) a(1) that unfolding pc_inv_def by fastforce
  have keys: "fd_keys ?fd' k = fd_keys ?fd k - {p}" for k
  proof (cases "k = r")
    case True
    then show ?thesis using rl by (auto simp: fd_keys_def bucket_keys_filter)
  next
    case False
    then show ?thesis using only [OF False] by (auto simp: fd_keys_def)
  qed
  then show "fd_keys (faces_dict (snd (remove_path pc p))) k = fd_keys (faces_dict pc) k - {p}"
    by (simp add: e)
  have d: "fd_distinct ?fd'"
  proof (rule fd_distinct_update)
    show "fd_distinct ?fd" using assms(1) by (simp add: pc_inv_def fd_distinct_def)
    then show "distinct (bucket_keys (filter (\<lambda>(k, v). k \<noteq> p) (?fd ! r)))"
      using rl by (simp add: bucket_keys_filter fd_distinct_nth)
  qed
  have m1: "- 1 \<le> ?m" using assms(1) a(1) unfolding pc_inv_def by auto
  have m2: "?m < int (length ?fd')" using assms(1) unfolding pc_inv_def by auto
  have m3: "int k \<le> ?m" if "fd_keys ?fd' k \<noteq> {}" for k
  proof -
    have ne: "fd_keys ?fd k \<noteq> {}" using that keys by auto
    then have le: "int k \<le> max_dim pc" using assms(1) unfolding pc_inv_def by blast
    show ?thesis
    proof (cases "length (?fd' ! r) = 0 \<and> max_dim pc = int (length p) - 1")
      case True
      then have "fd_keys ?fd' r = {}" using rl by (simp add: fd_keys_def bucket_keys_def)
      then have "k \<noteq> r" using that by auto
      moreover have "max_dim pc = int r" using True a(1) by simp
      ultimately show ?thesis using le True by simp
    next
      case False
      then show ?thesis using le by auto
    qed
  qed
  have k1: "length q = k + 1 \<and> valid_path (reserve_sequence_order pc) q \<and> q \<in> allowed_paths pc - {p}"
    if "q \<in> fd_keys ?fd' k" for q k
    using that assms(1) unfolding keys pc_inv_def by auto
  have f: "faces_dict (snd (remove_path pc p)) = ?fd'" "max_dim (snd (remove_path pc p)) = ?m"
    "allowed_paths (snd (remove_path pc p)) = allowed_paths pc - {p}"
    "reserve_sequence_order (snd (remove_path pc p)) = reserve_sequence_order pc"
    by (simp_all add: e)
  have d': "\<forall>b \<in> set ?fd'. distinct (bucket_keys b)" using d by (simp add: fd_distinct_def)
  show "pc_inv (snd (remove_path pc p))"
    unfolding pc_inv_def f
  proof (intro conjI allI impI)
    show "\<forall>b \<in> set ?fd'. distinct (bucket_keys b)" by (rule d')
    show "- 1 \<le> ?m" by (rule m1)
    show "?m < int (length ?fd')" by (rule m2)
  qed (use k1 m3 in blast)+
qed

lemma in_iter_paths: "p \<in> set (iter_paths pc) \<longleftrightarrow> (\<exists>k. p \<in> fd_keys (faces_dict pc) k)"
proof
  assume "p \<in> set (iter_paths pc)"
  then obtain b where "b \<in> set (faces_dict pc)" "p \<in> set (bucket_keys b)"
    by (auto simp: iter_paths_def)
  then obtain k where "k < length (faces_dict pc)" "faces_dict pc ! k = b"
    by (auto simp: in_set_conv_nth)
  then show "\<exists>k. p \<in> fd_keys (faces_dict pc) k"
    using \<open>p \<in> set (bucket_keys b)\<close> by (auto simp: fd_keys_def)
next
  assume "\<exists>k. p \<in> fd_keys (faces_dict pc) k"
  then obtain k where "k < length (faces_dict pc)" "p \<in> set (bucket_keys (faces_dict pc ! k))"
    by (auto simp: fd_keys_def split: if_splits)
  then show "p \<in> set (iter_paths pc)"
    by (auto simp: iter_paths_def)
qed

lemma remove_paths_ok:
  assumes "pc_inv pc" "distinct ps" "\<forall>p\<in>set ps. \<exists>r. p \<in> fd_keys (faces_dict pc) r"
  shows "fst (remove_paths pc ps) = Inr () \<and> pc_inv (snd (remove_paths pc ps)) \<and>
         (\<forall>k. fd_keys (faces_dict (snd (remove_paths pc ps))) k = fd_keys (faces_dict pc) k - set ps) \<and>
         reserve_sequence_order (snd (remove_paths pc ps)) = reserve_sequence_order pc"
  using assms
proof (induction ps arbitrary: pc)
  case Nil
  then show ?case by simp
next
  case (Cons p ps)
  obtain r where r: "p \<in> fd_keys (faces_dict pc) r" using Cons.prems(3) by auto
  note ok = remove_path_ok [OF Cons.prems(1) r]
  let ?pc' = "snd (remove_path pc p)"
  obtain u pc1 where e: "remove_path pc p = (Inr u, pc1)" using ok(1) by (cases "remove_path pc p") auto
  then have pc1: "pc1 = ?pc'" by simp
  have pre: "\<forall>q\<in>set ps. \<exists>r. q \<in> fd_keys (faces_dict ?pc') r"
    using Cons.prems(2,3) ok(3) by auto
  have d: "distinct ps" using Cons.prems(2) by simp
  note ih = Cons.IH [OF ok(2) d pre]
  have s: "remove_paths pc (p # ps) = remove_paths ?pc' ps"
    by (subst remove_paths.simps) (simp add: e flip: pc1)
  from ih have i1: "fst (remove_paths ?pc' ps) = Inr ()"
    and i2: "pc_inv (snd (remove_paths ?pc' ps))"
    and i3: "\<And>k. fd_keys (faces_dict (snd (remove_paths ?pc' ps))) k = fd_keys (faces_dict ?pc') k - set ps"
    and i4: "reserve_sequence_order (snd (remove_paths ?pc' ps)) = reserve_sequence_order ?pc'"
    by blast+
  have k: "fd_keys (faces_dict (snd (remove_paths ?pc' ps))) k = fd_keys (faces_dict pc) k - set (p # ps)" for k
    unfolding i3 ok(3) by auto
  show ?case unfolding s using i1 i2 i4 ok(4) k by simp
qed

lemma remove_nodes_ok:
  assumes "pc_inv pc" "pc_closed pc" "remove_nodes pc node_set res"
  shows "fst res = Inr () \<and> pc_inv (snd res) \<and> pc_closed (snd res)"
  using assms(3)
proof cases
  case (1 ps)
  have pre: "\<forall>p\<in>set ps. \<exists>r. p \<in> fd_keys (faces_dict pc) r"
    using 1(2) by (auto simp: removed_paths_def in_iter_paths)
  note ok = remove_paths_ok [OF assms(1) 1(3) pre]
  let ?pc' = "snd (remove_paths pc ps)"
  let ?res = "reserve_sequence_order pc"
  have keys: "\<And>k. fd_keys (faces_dict ?pc') k = fd_keys (faces_dict pc) k - set ps" using ok by blast
  have rs: "reserve_sequence_order ?pc' = ?res" using ok by blast
  have cl: "canon ?res s \<in> fd_keys (faces_dict ?pc') (length s - 1)"
    if q: "q \<in> fd_keys (faces_dict ?pc') r" and s: "s \<in> set (sub_sequences q)" for q r s
  proof -
    have q1: "q \<in> fd_keys (faces_dict pc) r" "q \<notin> set ps" using q keys by auto
    then have "q \<in> set (iter_paths pc)" using in_iter_paths by blast
    then have nn: "\<forall>n\<in>set node_set. n \<notin> set q" using q1(2) 1(2) by (auto simp: removed_paths_def)
    have c: "canon ?res s \<in> fd_keys (faces_dict pc) (length s - 1)"
      using assms(2) q1(1) s unfolding pc_closed_def by blast
    have "set s \<subseteq> set q" using s by (auto simp: in_sub_sequences dest: in_set_takeD in_set_dropD)
    then have "\<forall>n\<in>set node_set. n \<notin> set (canon ?res s)" using nn by auto
    then have "canon ?res s \<notin> set ps" using 1(2) by (auto simp: removed_paths_def)
    then show ?thesis using c keys by simp
  qed
  have "pc_closed ?pc'" unfolding pc_closed_def rs using cl by blast
  then show ?thesis using ok 1(1) by simp
qed

lemma empty_complex_inv: "pc_inv (empty_complex allowed reserve)" "pc_closed (empty_complex allowed reserve)"
  by (simp_all add: pc_inv_def pc_closed_def empty_complex_def fd_keys_def)

lemma reachable_inv: "reachable pc \<Longrightarrow> pc_inv pc \<and> pc_closed pc"
proof (induction rule: reachable.induct)
  case (init allowed reserve)
  then show ?case by (simp add: empty_complex_inv)
next
  case (add pc path attr)
  then show ?case by (simp add: add_path_inv add_path_closed)
next
  case (remove pc node_set res)
  then show ?case using remove_nodes_ok by blast
qed

lemma map_of_bucket_update:
  "map_of (bucket_update b p attr) q =
     (if q = p then map_option (\<lambda>v. v ++ attr) (map_of b p) else map_of b q)"
  by (induction b) (auto simp: bucket_update_def)

lemma present_valid:
  assumes "pc_inv pc" "r < length (faces_dict pc)" "path \<in> set (bucket_keys (faces_dict pc ! r))"
  shows "valid_path (reserve_sequence_order pc) path" "length path = r + 1"
    "path \<in> fd_keys (faces_dict pc) (length path - 1)" "int r \<le> max_dim pc"
proof -
  have k: "path \<in> fd_keys (faces_dict pc) r" using assms(2,3) by (simp add: fd_keys_def)
  then show "valid_path (reserve_sequence_order pc) path" "length path = r + 1"
    using assms(1) unfolding pc_inv_def by blast+
  then show "path \<in> fd_keys (faces_dict pc) (length path - 1)" using k by simp
  have "fd_keys (faces_dict pc) r \<noteq> {}" using k by blast
  then show "int r \<le> max_dim pc" using assms(1) unfolding pc_inv_def by blast
qed

lemma add_path_present:
  assumes "pc_inv pc" "r < length (faces_dict pc)" "path \<in> set (bucket_keys (faces_dict pc ! r))"
  shows "add_path pc path attr =
           (Inr (), pc\<lparr>faces_dict := (faces_dict pc)[r := bucket_update (faces_dict pc ! r) path attr]\<rparr>)"
proof -
  note v = present_valid [OF assms]
  have r: "length path - 1 = r" using v(2) by simp
  have k: "path \<in> fd_keys (grow (faces_dict pc) (length path)) r" using v(3) r by simp
  have g: "grow (faces_dict pc) (length path) = faces_dict pc"
    using assms(2) v(2) by (simp add: grow_def)
  have ia: "ins_all (reserve_sequence_order pc) (faces_dict pc) path = faces_dict pc"
    using v(3) by (simp add: ins_all_def g)
  have m: "max (max_dim pc) (int (length path) - 1) = max_dim pc" using v(2,4) by simp
  show ?thesis
    unfolding add_path_eq [OF v(1)] ia r m using v(3) r by simp
qed

text \<open>
  C6. In a complex reached from an empty one by insertions and node removals, inserting a
  path that is already present with a further attribute mapping succeeds and changes only
  that path's attribute dict, which receives the new attributes merged over the old ones:
  the keys of every rank bucket (hence every cardinality), max_dim and the allowed paths
  are unchanged, and the call is the attribute merge alone. After a first insert the path
  is present, so a second insert is that merge.
\<close>

theorem add_path_duplicate_merges:
  assumes "reachable pc" "r < length (faces_dict pc)"
    and "path \<in> set (bucket_keys (faces_dict pc ! r))"
  shows "add_path pc path attr =
           (Inr (), pc\<lparr>faces_dict := (faces_dict pc)[r := bucket_update (faces_dict pc ! r) path attr]\<rparr>)
       \<and> map bucket_keys (faces_dict (snd (add_path pc path attr))) = map bucket_keys (faces_dict pc)
       \<and> map length (faces_dict (snd (add_path pc path attr))) = map length (faces_dict pc)
       \<and> max_dim (snd (add_path pc path attr)) = max_dim pc
       \<and> allowed_paths (snd (add_path pc path attr)) = allowed_paths pc
       \<and> map_of (faces_dict (snd (add_path pc path attr)) ! r) path
            = map_option (\<lambda>old. old ++ attr) (map_of (faces_dict pc ! r) path)
       \<and> add_path pc path attr = update_attrs pc path attr"
proof -
  have inv: "pc_inv pc" using assms(1) reachable_inv by blast
  note e = add_path_present [OF inv assms(2,3), of attr]
  note v = present_valid [OF inv assms(2,3)]
  have idx: "py_index (faces_dict pc) (int (length path) - 1) = Some r"
    using py_index_pred [of "length path" "faces_dict pc"] v(2) assms(2) by simp
  have u: "update_attrs pc path attr =
           (Inr (), pc\<lparr>faces_dict := (faces_dict pc)[r := bucket_update (faces_dict pc ! r) path attr]\<rparr>)"
    using idx assms(3) by (simp add: update_attrs_def)
  have 1: "map bucket_keys ((faces_dict pc)[r := bucket_update (faces_dict pc ! r) path attr])
           = map bucket_keys (faces_dict pc)"
    using assms(2) by (intro nth_equalityI) (auto simp: nth_list_update)
  have 2: "map length ((faces_dict pc)[r := bucket_update (faces_dict pc ! r) path attr])
           = map length (faces_dict pc)"
    using assms(2) by (intro nth_equalityI) (auto simp: nth_list_update bucket_update_def)
  show ?thesis
    unfolding e using 1 2 u assms(2) by (simp add: map_of_bucket_update)
qed

lemma str_digits:
  "str 0 = ''0''" "str 1 = ''1''" "str 2 = ''2''" "str 3 = ''3''"
  by (simp_all add: str_def str_nat.simps digit_char_def)

lemma add_path_edge_example:
  "add_path (empty_complex {} False) [0, 1] Map.empty =
   (Inr (), \<lparr>faces_dict = [[([0], Map.empty), ([1], Map.empty)], [([0, 1], Map.empty)]],
       max_dim = 1, allowed_paths = {[0, 1], [0], [1]}, reserve_sequence_order = False\<rparr>)"
  by (simp add: add_path_def empty_complex_def update_faces_dict_length_def py_index_def
        bucket_keys_def sub_sequences_def orient_def update_faces_dict_entry_def update_attrs_def
        bucket_update_def Let_def upt_rec insert_commute str_digits)

lemma edge_complex_eq:
  "edge_complex = \<lparr>faces_dict = [[([0], Map.empty), ([1], Map.empty)], [([0, 1], Map.empty)]],
       max_dim = 1, allowed_paths = {[0, 1], [0], [1]}, reserve_sequence_order = False\<rparr>"
  by (simp add: edge_complex_def add_path_edge_example)

lemma edge_complex_reachable: "reachable edge_complex"
  unfolding edge_complex_def by (intro reachable.add reachable.init)

theorem add_path_duplicate_merges_witness:
  "add_path edge_complex [0, 1] [''weight'' \<mapsto> PyInt 4] =
     (Inr (), edge_complex\<lparr>faces_dict :=
        [[([0], Map.empty), ([1], Map.empty)], [([0, 1], [''weight'' \<mapsto> PyInt 4])]]\<rparr>)
   \<and> max_dim (snd (add_path edge_complex [0, 1] [''weight'' \<mapsto> PyInt 4])) = 1"
proof -
  have r: "1 < length (faces_dict edge_complex)" by (simp add: edge_complex_eq)
  have p: "[0, 1] \<in> set (bucket_keys (faces_dict edge_complex ! 1))"
    by (simp add: edge_complex_eq bucket_keys_def)
  show ?thesis
    using add_path_duplicate_merges [OF edge_complex_reachable r p, of "[''weight'' \<mapsto> PyInt 4]"]
    by (simp add: edge_complex_eq bucket_update_def)
qed

text \<open>
  C10. In every reachable path complex each path stored in a rank bucket is a member of the
  allowed-path set, and \<open>remove_nodes\<close> completes without raising for every node set
  and every order in which the set of affected paths is traversed: neither the bucket
  deletion nor the removal from the allowed-path set fails.
\<close>

theorem lattice_paths_allowed:
  assumes "reachable pc"
  shows "(\<forall>b \<in> set (faces_dict pc). \<forall>p \<in> set (bucket_keys b). p \<in> allowed_paths pc) \<and>
         (\<forall>node_set res. remove_nodes pc node_set res \<longrightarrow> fst res = Inr ())"
proof -
  have inv: "pc_inv pc" "pc_closed pc" using assms reachable_inv by blast+
  have "p \<in> allowed_paths pc" if "b \<in> set (faces_dict pc)" "p \<in> set (bucket_keys b)" for b p
  proof -
    from that(1) obtain k where "k < length (faces_dict pc)" "faces_dict pc ! k = b"
      by (auto simp: in_set_conv_nth)
    then have "p \<in> fd_keys (faces_dict pc) k" using that(2) by (simp add: fd_keys_def)
    then show ?thesis using inv(1) unfolding pc_inv_def by blast
  qed
  moreover have "fst res = Inr ()" if "remove_nodes pc node_set res" for node_set res
    using remove_nodes_ok [OF inv that] by simp
  ultimately show ?thesis by blast
qed

theorem lattice_paths_allowed_witness:
  "[0, 1] \<in> allowed_paths edge_complex \<and>
   fst (remove_paths edge_complex [[0, 1], [0]]) = Inr ()"
proof -
  have s: "set [[0, 1], [0]] = removed_paths edge_complex [0]"
    by (auto simp: removed_paths_def iter_paths_def edge_complex_eq bucket_keys_def)
  have n: "remove_nodes edge_complex [0] (remove_paths edge_complex [[0, 1], [0]])"
    by (rule remove_nodes.intros [OF s]) simp
  have b: "[([0, 1], Map.empty)] \<in> set (faces_dict edge_complex)"
    by (simp add: edge_complex_eq)
  have p: "[0, 1] \<in> set (bucket_keys [([0, 1], Map.empty)])" by (simp add: bucket_keys_def)
  show ?thesis using lattice_paths_allowed [OF edge_complex_reachable] n b p by blast
qed





lemma sort_key_str_012: "sort_key str [0, 1, 2] = [0, 1, 2]"
  by (simp add: str_digits)

lemma graph_012_allowed:
  "compute_allowed_paths graph_012 False 3 = {[0], [1], [2], [0, 1], [1, 2], [0, 1, 2]}"
proof -
  have n: "neighbors graph_012 0 = [1]" "neighbors graph_012 1 = [0, 2]" "neighbors graph_012 2 = [1]"
    by (simp_all add: neighbors_def graph_012_def)
  have three: "(3::nat) = Suc (Suc (Suc 0))" by simp
  have p01: "all_simple_paths graph_012 0 1 3 = [[0, 1]]"
    and p02: "all_simple_paths graph_012 0 2 3 = [[0, 1, 2]]"
    and p12: "all_simple_paths graph_012 1 2 3 = [[1, 2]]"
    by (simp_all add: all_simple_paths_def three n)
  have u: "[0..<3] = [0, 1, 2]" "[1..<3] = [1, 2]" "[2..<3] = [2]" "[3..<3] = []"
    by (simp_all add: upt_rec)
  have "allowed_paths_list graph_012 False 3 =
          [[0], [1], [2], [0, 1], [1, 2], [0, 1], [0, 1, 2], [1, 2]]"
    by (simp add: allowed_paths_list_def Let_def graph_012_def sort_key_str_012 u
          flip_def str_digits)
       (simp add: p01 p02 p12 graph_012_def [symmetric] flip_def str_digits)
  then show ?thesis by (auto simp: compute_allowed_paths_def)
qed

lemma add_path_keys_closed:
  assumes "pc_inv pc" "pc_closed pc" "valid_path (reserve_sequence_order pc) p"
  shows "fd_keys (faces_dict (snd (add_path pc p attr))) r =
           fd_keys (faces_dict pc) r \<union>
             {q \<in> canon (reserve_sequence_order pc) ` set (sub_sequences p). length q = r + 1}"
proof (cases "p \<in> fd_keys (faces_dict pc) (length p - 1)")
  case False
  then show ?thesis by (simp add: add_path_fields(6) [OF assms(3)])
next
  case True
  have "q \<in> fd_keys (faces_dict pc) r"
    if "q \<in> canon (reserve_sequence_order pc) ` set (sub_sequences p)" "length q = r + 1" for q
  proof -
    from that(1) obtain s where s: "s \<in> set (sub_sequences p)" "q = canon (reserve_sequence_order pc) s"
      by blast
    then have "q \<in> fd_keys (faces_dict pc) (length s - 1)"
      using assms(2) True unfolding pc_closed_def by blast
    moreover have "length s - 1 = r" using that(2) s(2) by simp
    ultimately show ?thesis by simp
  qed
  then show ?thesis using True by (auto simp: add_path_fields(6) [OF assms(3)])
qed

lemma add_paths_ok:
  assumes "pc_inv pc" "pc_closed pc" "\<forall>(p, a) \<in> set items. valid_path (reserve_sequence_order pc) p"
  shows "fst (add_paths pc items) = Inr () \<and> pc_inv (snd (add_paths pc items)) \<and>
         pc_closed (snd (add_paths pc items)) \<and>
         reserve_sequence_order (snd (add_paths pc items)) = reserve_sequence_order pc \<and>
         (\<forall>r. fd_keys (faces_dict (snd (add_paths pc items))) r =
               fd_keys (faces_dict pc) r \<union>
                 (\<Union>(p, a) \<in> set items.
                    {q \<in> canon (reserve_sequence_order pc) ` set (sub_sequences p). length q = r + 1}))"
  using assms
proof (induction items arbitrary: pc)
  case Nil
  then show ?case by simp
next
  case (Cons item items)
  obtain p a where item: "item = (p, a)" by (cases item)
  have v: "valid_path (reserve_sequence_order pc) p" using Cons.prems(3) item by simp
  obtain u pc1 where e: "add_path pc p a = (Inr u, pc1)"
    using add_path_fields(1) [OF v, of a] by (cases "add_path pc p a") auto
  then have pc1: "pc1 = snd (add_path pc p a)" by simp
  have r1: "reserve_sequence_order pc1 = reserve_sequence_order pc"
    unfolding pc1 by (rule add_path_fields(2) [OF v])
  have i1: "pc_inv pc1" "pc_closed pc1"
    unfolding pc1 using Cons.prems(1,2) by (simp_all add: add_path_inv add_path_closed)
  have pre: "\<forall>(p, a) \<in> set items. valid_path (reserve_sequence_order pc1) p"
    using Cons.prems(3) r1 by auto
  note ih = Cons.IH [OF i1 pre]
  have k1: "\<And>r. fd_keys (faces_dict pc1) r =
           fd_keys (faces_dict pc) r \<union>
             {q \<in> canon (reserve_sequence_order pc) ` set (sub_sequences p). length q = r + 1}"
    unfolding pc1 by (rule add_path_keys_closed [OF Cons.prems(1,2) v])
  have s: "add_paths pc ((p, a) # items) = add_paths pc1 items"
    by (subst add_paths.simps) (simp add: e)
  from ih have j1: "fst (add_paths pc1 items) = Inr ()"
    and j2: "pc_inv (snd (add_paths pc1 items))"
    and j3: "pc_closed (snd (add_paths pc1 items))"
    and j4: "reserve_sequence_order (snd (add_paths pc1 items)) = reserve_sequence_order pc1"
    and j5: "\<And>r. fd_keys (faces_dict (snd (add_paths pc1 items))) r =
               fd_keys (faces_dict pc1) r \<union>
                 (\<Union>(p, a) \<in> set items.
                    {q \<in> canon (reserve_sequence_order pc1) ` set (sub_sequences p). length q = r + 1})"
    by blast+
  have k: "fd_keys (faces_dict (snd (add_paths pc1 items))) r =
               fd_keys (faces_dict pc) r \<union>
                 (\<Union>(p, a) \<in> set ((p, a) # items).
                    {q \<in> canon (reserve_sequence_order pc) ` set (sub_sequences p). length q = r + 1})" for r
    unfolding j5 r1 k1 by auto
  show ?case unfolding item s using j1 j2 j3 j4 r1 k by simp
qed

lemma UN_pairs_fst: "(\<Union>(p, a) \<in> S. F p) = (\<Union>p \<in> fst ` S. F p)"
  by auto

lemma distinct_singleton: "distinct xs \<Longrightarrow> set xs = {a} \<Longrightarrow> xs = [a]"
proof (cases xs)
  case Nil
  assume "set xs = {a}" with Nil show ?thesis by simp
next
  case (Cons x ys)
  assume d: "distinct xs" and s: "set xs = {a}"
  then have "x = a" using Cons by auto
  moreover have "set ys \<subseteq> {a}" "a \<notin> set ys" using d s Cons \<open>x = a\<close> by auto
  then have "ys = []" by (cases ys) auto
  ultimately show ?thesis using Cons by simp
qed

lemma subs_012:
  "sub_sequences [0::int] = [[0]]" "sub_sequences [1::int] = [[1]]" "sub_sequences [2::int] = [[2]]"
  "sub_sequences [0, 1::int] = [[0, 1], [0], [1]]" "sub_sequences [1, 2::int] = [[1, 2], [1], [2]]"
  "sub_sequences [0, 1, 2::int] = [[0, 1, 2], [0, 1], [1, 2], [0], [1], [2]]"
  by (simp_all add: sub_sequences_def upt_rec)

lemma canon_012:
  "canon False [0] = [0]" "canon False [1] = [1]" "canon False [2] = [2]"
  "canon False [0, 1] = [0, 1]" "canon False [1, 2] = [1, 2]" "canon False [0, 1, 2] = [0, 1, 2]"
  by (simp_all add: canon_def str_digits)

lemma rank2_012:
  "{q \<in> canon False ` set (sub_sequences [0]). length q = 2 + 1} = {}"
  "{q \<in> canon False ` set (sub_sequences [1]). length q = 2 + 1} = {}"
  "{q \<in> canon False ` set (sub_sequences [2]). length q = 2 + 1} = {}"
  "{q \<in> canon False ` set (sub_sequences [0, 1]). length q = 2 + 1} = {}"
  "{q \<in> canon False ` set (sub_sequences [1, 2]). length q = 2 + 1} = {}"
  "{q \<in> canon False ` set (sub_sequences [0, 1, 2]). length q = 2 + 1} = {[0, 1, 2]}"
  by (auto simp: subs_012 canon_012)

lemma rank2_012_union:
  "(\<Union>p \<in> {[0], [1], [2], [0, 1], [1, 2], [0, 1, 2]}.
      {q \<in> canon False ` set (sub_sequences p). length q = 2 + 1}) = {[0, 1, 2]}"
  by (simp only: UN_insert UN_empty rank2_012 Un_empty_left Un_empty_right)

lemma graph_012_items:
  assumes "set order = {[0], [1], [2], [0, 1], [1, 2], [0, 1, 2]}"
  shows "fst ` set (map (\<lambda>(node, data). ([node], data)) (g_nodes graph_012) @
         map (\<lambda>(u, v, data). (if str u > str v \<and> \<not> False then [v, u] else [u, v], data)) (g_edges graph_012) @
         map (\<lambda>p. (p, Map.empty)) order) = {[0], [1], [2], [0, 1], [1, 2], [0, 1, 2]}"
proof -
  have 1: "map (\<lambda>(node, data). ([node], data)) (g_nodes graph_012) @
         map (\<lambda>(u, v, data). (if str u > str v \<and> \<not> False then [v, u] else [u, v], data)) (g_edges graph_012)
      = [([0], Map.empty), ([1], Map.empty), ([2], Map.empty), ([0, 1], Map.empty), ([1, 2], Map.empty)]"
    by (simp add: graph_012_def str_digits)
  have 2: "fst ` set (map (\<lambda>p. (p, Map.empty)) order) = set order" by (simp add: image_image)
  have 3: "fst ` set ([([0], Map.empty), ([1], Map.empty), ([2], Map.empty), ([0, 1], Map.empty), ([1, 2], Map.empty)]
          @ map (\<lambda>p. (p, Map.empty)) order) = {[0], [1], [2], [0, 1], [1, 2]} \<union> set order"
    unfolding set_append image_Un 2 by simp
  have 4: "{[0], [1], [2], [0, 1], [1, 2]} \<union> {[0], [1], [2], [0, 1], [1, 2], [0, 1, 2]}
        = {[0], [1], [2], [0, 1], [1, 2], [0, 1, 2::int]}" by blast
  show ?thesis unfolding append_assoc [symmetric] 1 3 assms 4 ..
qed

text \<open>
  C8. For the graph with edges (0,1) and (1,2) and \<open>max_rank = 3\<close> the computed
  allowed-path set contains (0,1,2) and no path of more than three nodes, and however the
  constructor walks that set, construction succeeds and \<open>skeleton(2)\<close> is exactly
  [(0,1,2)].
\<close>

theorem graph_012_skeleton_2:
  "[0, 1, 2] \<in> compute_allowed_paths graph_012 False 3 \<and>
   (\<forall>p \<in> compute_allowed_paths graph_012 False 3. length p \<le> 3) \<and>
   (\<forall>res. init_graph graph_012 False 3 res \<longrightarrow>
      fst res = Inr () \<and> skeleton (snd res) 2 = Inr [[0, 1, 2]])"
proof -
  let ?A = "compute_allowed_paths graph_012 False 3"
  have A: "?A = {[0], [1], [2], [0, 1], [1, 2], [0, 1, 2]}" by (rule graph_012_allowed)
  have "fst res = Inr () \<and> skeleton (snd res) 2 = Inr [[0, 1, 2]]"
    if "init_graph graph_012 False 3 res" for res
    using that
  proof cases
    case (1 order)
    let ?pc0 = "empty_complex ?A False"
    let ?items = "map (\<lambda>(node, data). ([node], data)) (g_nodes graph_012) @
         map (\<lambda>(u, v, data). (if str u > str v \<and> \<not> False then [v, u] else [u, v], data)) (g_edges graph_012) @
         map (\<lambda>p. (p, Map.empty)) order"
    have r0: "reserve_sequence_order ?pc0 = False" by (simp add: empty_complex_def)
    have paths: "fst ` set ?items = {[0], [1], [2], [0, 1], [1, 2], [0, 1, 2]}"
      using 1(2) unfolding A by (rule graph_012_items)
    have valid: "\<forall>(p, a) \<in> set ?items. valid_path (reserve_sequence_order ?pc0) p"
      unfolding r0
    proof (intro ballI)
      fix x assume "x \<in> set ?items"
      then have "fst x \<in> fst ` set ?items" by (rule imageI)
      then have "fst x \<in> {[0], [1], [2], [0, 1], [1, 2], [0, 1, 2]}" unfolding paths .
      then have "valid_path False (fst x)" by (auto simp: valid_path_def str_digits)
      then show "case x of (p, a) \<Rightarrow> valid_path False p" by (simp add: case_prod_beta)
    qed
    note ok = add_paths_ok [OF empty_complex_inv valid]
    let ?pc' = "snd (add_paths ?pc0 ?items)"
    have "fd_keys (faces_dict ?pc') 2 =
            (\<Union>(p, a) \<in> set ?items. {q \<in> canon False ` set (sub_sequences p). length q = 2 + 1})"
      using ok unfolding r0 by (simp add: empty_complex_def fd_keys_def)
    also have "\<dots> = (\<Union>p \<in> fst ` set ?items. {q \<in> canon False ` set (sub_sequences p). length q = 2 + 1})"
      by (rule UN_pairs_fst)
    also have "\<dots> = {[0, 1, 2]}"
      unfolding paths by (rule rank2_012_union)
    finally have k: "fd_keys (faces_dict ?pc') 2 = {[0, 1, 2]}" .
    then have len: "2 < length (faces_dict ?pc')" by (auto simp: fd_keys_def split: if_splits)
    then have s: "set (bucket_keys (faces_dict ?pc' ! 2)) = {[0, 1, 2]}" using k by (simp add: fd_keys_def)
    have "distinct (bucket_keys (faces_dict ?pc' ! 2))"
      using ok len unfolding pc_inv_def by simp
    then have "bucket_keys (faces_dict ?pc' ! 2) = [[0, 1, 2]]" using s by (rule distinct_singleton)
    then have "skeleton ?pc' 2 = Inr [[0, 1, 2]]" using len by (simp add: skeleton_def)
    then show ?thesis using ok unfolding 1(1) by simp
  qed
  then show ?thesis unfolding A by auto
qed

theorem graph_012_skeleton_2_witness:
  "skeleton (snd (add_paths (empty_complex (compute_allowed_paths graph_012 False 3) False)
      [([0], Map.empty), ([1], Map.empty), ([2], Map.empty), ([0, 1], Map.empty), ([1, 2], Map.empty),
       ([0, 1, 2], Map.empty), ([1, 2], Map.empty), ([0, 1], Map.empty), ([2], Map.empty),
       ([1], Map.empty), ([0], Map.empty)])) 2 = Inr [[0, 1, 2]]"
proof -
  let ?order = "[[0, 1, 2], [1, 2], [0, 1], [2], [1], [0::int]]"
  have s: "set ?order = compute_allowed_paths graph_012 False 3"
    unfolding graph_012_allowed by auto
  have d: "distinct ?order" by simp
  have items: "map (\<lambda>(node, data). ([node], data)) (g_nodes graph_012) @
         map (\<lambda>(u, v, data). (if str u > str v \<and> \<not> False then [v, u] else [u, v], data)) (g_edges graph_012) @
         map (\<lambda>p. (p, Map.empty)) ?order =
      [([0], Map.empty), ([1], Map.empty), ([2], Map.empty), ([0, 1], Map.empty), ([1, 2], Map.empty),
       ([0, 1, 2], Map.empty), ([1, 2], Map.empty), ([0, 1], Map.empty), ([2], Map.empty),
       ([1], Map.empty), ([0], Map.empty)]"
    by (simp add: graph_012_def str_digits)
  have "init_graph graph_012 False 3
     (add_paths (empty_complex (compute_allowed_paths graph_012 False 3) False)
      [([0], Map.empty), ([1], Map.empty), ([2], Map.empty), ([0, 1], Map.empty), ([1, 2], Map.empty),
       ([0, 1, 2], Map.empty), ([1, 2], Map.empty), ([0, 1], Map.empty), ([2], Map.empty),
       ([1], Map.empty), ([0], Map.empty)])"
    using init_graph.intros [OF s d] unfolding items .
  then show ?thesis using graph_012_skeleton_2 by blast
qed























lemma after_removal_reachable: "reachable after_removal"
proof -
  have s: "set [[0, 1], [0]] = removed_paths edge_complex [0]"
    by (auto simp: removed_paths_def iter_paths_def edge_complex_eq bucket_keys_def)
  have "remove_nodes edge_complex [0] (remove_paths edge_complex [[0, 1], [0]])"
    by (rule remove_nodes.intros [OF s]) simp
  then show ?thesis unfolding after_removal_def
    using reachable.remove [OF edge_complex_reachable] by blast
qed
























end
